theory Spec2Isabelle
  imports Complex_Main "HOL-Library.Word" "HOL-Library.Multiset"
begin

section \<open>Data model of the conversion route\<close>

text \<open>
  The model covers the computational part of \<^verbatim>\<open>src/app/api/convert/route.ts\<close>
  (lines 57 to 146): everything after the pixel data has been read from the
  canvas. The canvas is represented by its \<^verbatim>\<open>width\<close> \<open>W\<close>, its
  \<^verbatim>\<open>height\<close> \<open>H\<close> and the \<^verbatim>\<open>Uint8ClampedArray\<close> \<open>data\<close> of its image data,
  a list of bytes.

  The numbers of the source are JavaScript doubles. Every number the route
  computes from a canvas is either a small non-negative integer, which a
  double holds exactly, or one of the quotients \<open>r / 2\<close>, \<open>a / 255\<close>,
  \<open>a * 20\<close>, \<open>k / 20\<close> and \<open>baseSize / 400\<close>. These are modelled as
  rationals; \<^verbatim>\<open>Math.round\<close> and \<^verbatim>\<open>Math.floor\<close> are then taken of the exact
  value. For the bytes \<open>0..255\<close> the double computation gives the same
  integers: \<open>r / 2\<close> is exact, and \<open>20 * a / 255 = 4 * a / 51\<close> is at least
  \<open>1 / 102\<close> away from every rounding boundary \<open>k + 1 / 2\<close>, far more than the
  error of two double operations.
\<close>

type_synonym byte = "8 word"

text \<open>The interface \<^verbatim>\<open>Rect\<close> (lines 58 to 63).\<close>

record Rect =
  rect_x :: nat
  rect_y :: nat
  rect_width :: nat
  rect_height :: nat

text \<open>
  \<^verbatim>\<open>colorMap\<close> is a \<^verbatim>\<open>Map<string, Rect[]>\<close>. A JavaScript \<^verbatim>\<open>Map\<close> iterates
  in insertion order of its keys, and line 129 iterates over it, so it is an
  association list in insertion order.
\<close>

type_synonym colorMap = "(string \<times> Rect list) list"

section \<open>Numbers and their text\<close>

text \<open>\<^verbatim>\<open>Math.round\<close> rounds to the nearest integer, ties towards plus infinity.\<close>

definition Math_round :: "rat \<Rightarrow> int" where
  "Math_round v = \<lfloor>v + 1 / 2\<rfloor>"

definition Math_floor :: "rat \<Rightarrow> int" where
  "Math_floor v = \<lfloor>v\<rfloor>"

definition digit_char :: "nat \<Rightarrow> char" where
  "digit_char d = ''0123456789'' ! (d mod 10)"

text \<open>The decimal text of a non-negative integer, as a template literal renders it.\<close>

fun show_nat :: "nat \<Rightarrow> string" where
  "show_nat n = (if n < 10 then [digit_char n] else show_nat (n div 10) @ [digit_char (n mod 10)])"

declare show_nat.simps [simp del]

text \<open>
  The text of the number \<open>k / 20\<close>, as a template literal renders it: the
  integer part, then the shortest decimal fraction (\<open>k / 20\<close> has at most two
  decimals, and no trailing zero is written): \<^verbatim>\<open>0\<close>, \<^verbatim>\<open>0.05\<close>, \<^verbatim>\<open>0.1\<close>, ...,
  \<^verbatim>\<open>0.95\<close>, \<^verbatim>\<open>1\<close>.
\<close>

definition show_twentieths :: "nat \<Rightarrow> string" where
  "show_twentieths k =
     (let hundredths = (k mod 20) * 5 in
      if hundredths = 0 then show_nat (k div 20)
      else if hundredths mod 10 = 0 then show_nat (k div 20) @ ''.'' @ [digit_char (hundredths div 10)]
      else show_nat (k div 20) @ ''.'' @ [digit_char (hundredths div 10), digit_char (hundredths mod 10)])"

section \<open>Sampling (lines 66 to 97)\<close>

text \<open>
  \<^verbatim>\<open>data[idx]\<close>: the byte at \<open>idx\<close> as a number, \<^verbatim>\<open>undefined\<close> (here \<open>None\<close>)
  past the end of the array. Arithmetic on \<^verbatim>\<open>undefined\<close> gives \<^verbatim>\<open>NaN\<close>.
\<close>

definition data_at :: "byte list \<Rightarrow> nat \<Rightarrow> nat option" where
  "data_at data idx = (if idx < length data then Some (unat (data ! idx)) else None)"

text \<open>Lines 70 and 71.\<close>

definition baseSize :: "nat \<Rightarrow> nat \<Rightarrow> nat" where
  "baseSize W H = min W H"

definition sampleRate :: "nat \<Rightarrow> nat \<Rightarrow> nat" where
  "sampleRate W H = nat (max 1 (Math_floor (of_nat (baseSize W H) / 400)))"

text \<open>
  The pieces of the template literal of line 86:
  \<^verbatim>\<open>${Math.round(r/2)*2}\<close> for a colour channel and
  \<^verbatim>\<open>${Math.round(a*20)/20}\<close> for the alpha channel, where \<open>a\<close> is the byte
  divided by 255.
\<close>

definition channel_text :: "nat option \<Rightarrow> string" where
  "channel_text c =
     (case c of None \<Rightarrow> ''NaN''
      | Some r \<Rightarrow> show_nat (nat (Math_round (of_nat r / 2) * 2)))"

definition alpha_text :: "nat option \<Rightarrow> string" where
  "alpha_text c =
     (case c of None \<Rightarrow> ''NaN''
      | Some v \<Rightarrow> show_twentieths (nat (Math_round (of_nat v / 255 * 20))))"

definition colorKey :: "nat option \<Rightarrow> nat option \<Rightarrow> nat option \<Rightarrow> nat option \<Rightarrow> string" where
  "colorKey r g b a =
     ''rgba('' @ channel_text r @ '','' @ channel_text g @ '','' @ channel_text b @ '','' @
     alpha_text a @ '')''"

text \<open>
  Lines 88 to 95: create the bucket of the key when it is missing, then push
  the rectangle at the end of the bucket.
\<close>

fun colorMap_push :: "string \<Rightarrow> Rect \<Rightarrow> colorMap \<Rightarrow> colorMap" where
  "colorMap_push key rect [] = [(key, [rect])]"
| "colorMap_push key rect ((k, rects) # cm) =
     (if k = key then (k, rects @ [rect]) # cm else (k, rects) # colorMap_push key rect cm)"

text \<open>
  The body of the inner loop (lines 76 to 95). \<^verbatim>\<open>a === 0\<close> holds exactly when
  the alpha byte is there and is 0 (\<^verbatim>\<open>NaN === 0\<close> is false).
\<close>

definition sample_pixel :: "nat \<Rightarrow> nat \<Rightarrow> byte list \<Rightarrow> nat \<Rightarrow> nat \<Rightarrow> colorMap \<Rightarrow> colorMap" where
  "sample_pixel s W data y x cm =
     (let idx = (y * W + x) * 4;
          r = data_at data idx;
          g = data_at data (idx + 1);
          b = data_at data (idx + 2);
          a = data_at data (idx + 3)
      in if a = Some 0 then cm
         else colorMap_push (colorKey r g b a)
                \<lparr>rect_x = x, rect_y = y, rect_width = s, rect_height = s\<rparr> cm)"

text \<open>
  The two loops of lines 74 and 75, with the sample rate \<open>s\<close> as a parameter.
  With \<open>s = 0\<close> a loop whose bound is positive never ends, so the loops are
  partial functions: \<open>None\<close> is a loop that does not return.
\<close>

partial_function (option) row_loop ::
  "nat \<Rightarrow> nat \<Rightarrow> byte list \<Rightarrow> nat \<Rightarrow> nat \<Rightarrow> colorMap \<Rightarrow> colorMap option" where
  "row_loop s W data y x cm =
     (if x < W then row_loop s W data y (x + s) (sample_pixel s W data y x cm) else Some cm)"

partial_function (option) scan_loop ::
  "nat \<Rightarrow> nat \<Rightarrow> nat \<Rightarrow> byte list \<Rightarrow> nat \<Rightarrow> colorMap \<Rightarrow> colorMap option" where
  "scan_loop s W H data y cm =
     (if y < H then Option.bind (row_loop s W data y 0 cm) (scan_loop s W H data (y + s))
      else Some cm)"

definition sample :: "nat \<Rightarrow> nat \<Rightarrow> nat \<Rightarrow> byte list \<Rightarrow> colorMap option" where
  "sample s W H data = scan_loop s W H data 0 []"

section \<open>Sorting and merging (lines 100 to 134)\<close>

text \<open>The comparator of line 131.\<close>

definition compare_rects :: "Rect \<Rightarrow> Rect \<Rightarrow> int" where
  "compare_rects a b =
     (if rect_y a = rect_y b then int (rect_x a) - int (rect_x b)
      else int (rect_y a) - int (rect_y b))"

text \<open>
  \<^verbatim>\<open>Array.prototype.sort\<close> is a stable sort. The comparator is a total
  preorder, so the result is the one stable insertion sort gives.
\<close>

fun insort_rect :: "Rect \<Rightarrow> Rect list \<Rightarrow> Rect list" where
  "insort_rect a [] = [a]"
| "insort_rect a (b # bs) =
     (if compare_rects a b \<le> 0 then a # b # bs else b # insort_rect a bs)"

definition sort_rects :: "Rect list \<Rightarrow> Rect list" where
  "sort_rects rects = foldr insort_rect rects []"

text \<open>
  The loop of \<^verbatim>\<open>optimizeRects\<close> (lines 106 to 119) with the final push of
  line 121: \<open>current\<close> is the accumulator, \<open>result\<close> the rectangles pushed so
  far.
\<close>

fun merge_loop :: "Rect \<Rightarrow> Rect list \<Rightarrow> Rect list \<Rightarrow> Rect list" where
  "merge_loop current [] result = result @ [current]"
| "merge_loop current (rect # rects) result =
     (if rect_y rect = rect_y current \<and> rect_height rect = rect_height current \<and>
         rect_x rect = rect_x current + rect_width current
      then merge_loop (current\<lparr>rect_width := rect_width current + rect_width rect\<rparr>) rects result
      else merge_loop rect rects (result @ [current]))"

definition optimizeRects :: "Rect list \<Rightarrow> Rect list" where
  "optimizeRects rects =
     (if length rects \<le> 1 then rects else merge_loop (hd rects) (tl rects) [])"

section \<open>Serialisation (lines 126 to 146)\<close>

text \<open>The template literal of line 138.\<close>

definition rect_element :: "Rect \<Rightarrow> string \<Rightarrow> string" where
  \<open>rect_element rect color =
     ''<rect x="'' @ show_nat (rect_x rect) @ ''" y="'' @ show_nat (rect_y rect) @
     ''" width="'' @ show_nat (rect_width rect) @ ''" height="'' @ show_nat (rect_height rect) @
     ''" fill="'' @ color @ ''" />''\<close>

text \<open>The loop of lines 129 to 140.\<close>

definition svgPaths :: "colorMap \<Rightarrow> string" where
  "svgPaths cm =
     concat (map (\<lambda>(color, rects).
       concat (map (\<lambda>rect. rect_element rect color) (optimizeRects (sort_rects rects)))) cm)"

text \<open>The template literal of lines 143 to 146; it spans four lines.\<close>

definition svg_open :: "nat \<Rightarrow> nat \<Rightarrow> string" where
  \<open>svg_open W H =
     ''<?xml version="1.0" encoding="UTF-8" standalone="no"?>'' @ [CHR 0x0A] @
     ''<svg width="'' @ show_nat W @ ''" height="'' @ show_nat H @
     ''" xmlns="http://www.w3.org/2000/svg" viewBox="0 0 '' @ show_nat W @ '' '' @ show_nat H @
     ''">'' @ [CHR 0x0A] @ ''  ''\<close>

definition svg_close :: string where
  \<open>svg_close = [CHR 0x0A] @ ''</svg>''\<close>

definition svg :: "nat \<Rightarrow> nat \<Rightarrow> string \<Rightarrow> string" where
  "svg W H paths = svg_open W H @ paths @ svg_close"

text \<open>
  The whole computation from the canvas to the document: \<open>None\<close> when the
  sampling loops do not return.
\<close>

definition convert :: "nat \<Rightarrow> nat \<Rightarrow> byte list \<Rightarrow> string option" where
  "convert W H data =
     map_option (\<lambda>cm. svg W H (svgPaths cm)) (sample (sampleRate W H) W H data)"

text \<open>
  The rectangles the document is made of, each with the colour of its bucket,
  in the order of emission.
\<close>

definition emitted :: "colorMap \<Rightarrow> (string \<times> Rect) list" where
  "emitted cm =
     concat (map (\<lambda>(color, rects). map (Pair color) (optimizeRects (sort_rects rects))) cm)"

definition mergedRects :: "nat \<Rightarrow> nat \<Rightarrow> byte list \<Rightarrow> (string \<times> Rect) list option" where
  "mergedRects W H data = map_option emitted (sample (sampleRate W H) W H data)"

section \<open>Descriptions of the loops used in the proofs\<close>

text \<open>
  The values a counter takes in a loop \<^verbatim>\<open>for (v = v0; v < bound; v += s)\<close>
  with \<open>s > 0\<close>, in order.
\<close>

function coords :: "nat \<Rightarrow> nat \<Rightarrow> nat \<Rightarrow> nat list" where
  "coords s v bound = (if 0 < s \<and> v < bound then v # coords s (v + s) bound else [])"
  by pat_completeness auto
termination
  by (relation "measure (\<lambda>(s, v, bound). bound - v)") auto

declare coords.simps [simp del]

text \<open>The cell pushed for the sample at \<open>(x, y)\<close> (line 94).\<close>

definition cell :: "nat \<Rightarrow> nat \<Rightarrow> nat \<Rightarrow> Rect" where
  "cell s x y = \<lparr>rect_x = x, rect_y = y, rect_width = s, rect_height = s\<rparr>"

text \<open>The sample at \<open>(x, y)\<close> is not skipped by line 83.\<close>

definition kept :: "nat \<Rightarrow> byte list \<Rightarrow> nat \<Rightarrow> nat \<Rightarrow> bool" where
  "kept W data y x = (data_at data ((y * W + x) * 4 + 3) \<noteq> Some 0)"

text \<open>The colour key of the pixel at \<open>(x, y)\<close> (line 86 on lines 76 to 80).\<close>

definition pixel_key :: "nat \<Rightarrow> byte list \<Rightarrow> nat \<Rightarrow> nat \<Rightarrow> string" where
  "pixel_key W data y x =
     colorKey (data_at data ((y * W + x) * 4)) (data_at data ((y * W + x) * 4 + 1))
       (data_at data ((y * W + x) * 4 + 2)) (data_at data ((y * W + x) * 4 + 3))"

text \<open>The sampled coordinates \<open>(y, x)\<close> in scan order, and the samples kept.\<close>

definition grid :: "nat \<Rightarrow> nat \<Rightarrow> nat \<Rightarrow> (nat \<times> nat) list" where
  "grid s W H = List.product (coords s 0 H) (coords s 0 W)"

definition samples :: "nat \<Rightarrow> nat \<Rightarrow> nat \<Rightarrow> byte list \<Rightarrow> (string \<times> Rect) list" where
  "samples s W H data =
     map (\<lambda>(y, x). (pixel_key W data y x, cell s x y))
       (filter (\<lambda>(y, x). kept W data y x) (grid s W H))"

text \<open>
  A rectangle covers a cell: same row, same height, and the cell's column
  interval lies inside the rectangle's.
\<close>

definition covers :: "Rect \<Rightarrow> Rect \<Rightarrow> bool" where
  "covers r c \<longleftrightarrow>
     rect_y r = rect_y c \<and> rect_height r = rect_height c \<and> rect_x r \<le> rect_x c \<and>
     rect_x c + rect_width c \<le> rect_x r + rect_width r"

text \<open>The strict order by row, then column, of line 131.\<close>

definition before :: "Rect \<Rightarrow> Rect \<Rightarrow> bool" where
  "before a b \<longleftrightarrow> rect_y a < rect_y b \<or> (rect_y a = rect_y b \<and> rect_x a < rect_x b)"

text \<open>The bucket of a key: empty when the map has no such key.\<close>

definition bucket :: "colorMap \<Rightarrow> string \<Rightarrow> Rect list" where
  "bucket cm key = (case map_of cm key of None \<Rightarrow> [] | Some rects \<Rightarrow> rects)"

text \<open>
  A run of cells of one row, and the rectangle \<^verbatim>\<open>optimizeRects\<close> makes of it:
  the first cell, as wide as all cells of the run together.
\<close>

definition same_row :: "Rect list \<Rightarrow> bool" where
  "same_row run \<longleftrightarrow>
     run \<noteq> [] \<and>
     (\<forall>c \<in> set run. rect_y (hd run) = rect_y c \<and> rect_height (hd run) = rect_height c)"

definition merged :: "Rect list \<Rightarrow> Rect" where
  "merged run = (hd run)\<lparr>rect_width := sum_list (map rect_width run)\<rparr>"

text \<open>
  A cell of the sampling grid of stride \<open>s\<close>, and a rectangle that ends, in
  the order of line 131, before a cell begins.
\<close>

definition on_grid :: "nat \<Rightarrow> Rect \<Rightarrow> bool" where
  "on_grid s c \<longleftrightarrow> rect_width c = s \<and> rect_height c = s \<and> s dvd rect_x c"

definition after :: "Rect \<Rightarrow> Rect \<Rightarrow> bool" where
  "after cur c \<longleftrightarrow>
     rect_y cur < rect_y c \<or> (rect_y cur = rect_y c \<and> rect_x cur + rect_width cur \<le> rect_x c)"

text \<open>The buffers of the examples.\<close>

definition red_2x1 :: "byte list" where
  "red_2x1 = [255, 0, 0, 255, 255, 0, 0, 255]"

section \<open>Rounding and text of numbers\<close>

lemma Math_round_half: "Math_round (of_nat r / 2) = int ((r + 1) div 2)"
proof -
  have "(of_nat r :: rat) / 2 + 1 / 2 = of_nat (r + 1) / of_nat 2"
    by (simp add: add_divide_distrib)
  then show ?thesis
    unfolding Math_round_def by (simp only: floor_divide_of_nat_eq)
qed

lemma Math_round_alpha: "Math_round (of_nat v / 255 * 20) = int ((40 * v + 255) div 510)"
proof -
  have "(of_nat v :: rat) / 255 * 20 + 1 / 2 = of_nat (40 * v + 255) / of_nat 510"
    by (simp add: field_simps)
  then show ?thesis
    unfolding Math_round_def by (simp only: floor_divide_of_nat_eq)
qed

lemma quantize_channel: "nat (Math_round (of_nat r / 2) * 2) = (if even r then r else r + 1)"
  unfolding Math_round_half by (auto elim!: evenE oddE simp: nat_mult_distrib)

lemma quantize_alpha: "nat (Math_round (of_nat v / 255 * 20)) = (40 * v + 255) div 510"
  unfolding Math_round_alpha by simp

lemma sampleRate_eq: "sampleRate W H = max 1 (min W H div 400)"
proof -
  have "Math_floor (of_nat (min W H) / 400) = int (min W H div 400)"
    unfolding Math_floor_def using floor_divide_of_nat_eq [of "min W H" 400, where ?'a = rat] by simp
  then show ?thesis
    by (simp add: sampleRate_def baseSize_def max_def)
qed

lemma sampleRate_pos: "0 < sampleRate W H"
  by (simp add: sampleRate_eq)

section \<open>The loops return\<close>

lemma row_loop_eq:
  "0 < s \<Longrightarrow> row_loop s W data y x cm =
     Some (foldl (\<lambda>cm x. sample_pixel s W data y x cm) cm (coords s x W))"
proof (induction s x W arbitrary: cm rule: coords.induct)
  case (1 s x W)
  show ?case
  proof (cases "x < W")
    case True
    with 1 show ?thesis
      by (subst row_loop.simps, subst coords.simps) simp
  next
    case False
    then show ?thesis
      by (subst row_loop.simps, subst coords.simps) simp
  qed
qed

lemma scan_loop_eq:
  "0 < s \<Longrightarrow> scan_loop s W H data y cm =
     Some (foldl (\<lambda>cm y. foldl (\<lambda>cm x. sample_pixel s W data y x cm) cm (coords s 0 W)) cm
       (coords s y H))"
proof (induction s y H arbitrary: cm rule: coords.induct)
  case (1 s y H)
  show ?case
  proof (cases "y < H")
    case True
    with 1 show ?thesis
      by (subst scan_loop.simps, subst coords.simps) (simp add: row_loop_eq)
  next
    case False
    then show ?thesis
      by (subst scan_loop.simps, subst coords.simps) simp
  qed
qed

lemma sample_eq:
  "0 < s \<Longrightarrow> sample s W H data =
     Some (foldl (\<lambda>cm y. foldl (\<lambda>cm x. sample_pixel s W data y x cm) cm (coords s 0 W)) []
       (coords s 0 H))"
  by (simp add: sample_def scan_loop_eq)

lemma coords_one: "coords 1 v bound = [v..<bound]"
proof (induction "1::nat" v bound rule: coords.induct)
  case (1 v bound)
  show ?case
  proof (cases "v < bound")
    case True
    with 1 show ?thesis
      by (subst coords.simps) (simp add: upt_conv_Cons)
  next
    case False
    then show ?thesis
      by (subst coords.simps) simp
  qed
qed

lemma coords_empty: "coords s v 0 = []"
  by (subst coords.simps) simp

section \<open>End-to-end example\<close>

lemma sample_red_2x1:
  "sample (sampleRate 2 1) 2 1 red_2x1 = Some [(''rgba(256,0,0,1)'',
     [\<lparr>rect_x = 0, rect_y = 0, rect_width = 1, rect_height = 1\<rparr>,
      \<lparr>rect_x = 1, rect_y = 0, rect_width = 1, rect_height = 1\<rparr>])]"
  by (subst sample_eq [OF sampleRate_pos]) code_simp

lemma mergedRects_red_2x1:
  "mergedRects 2 1 red_2x1 =
     Some [(''rgba(256,0,0,1)'', \<lparr>rect_x = 0, rect_y = 0, rect_width = 2, rect_height = 1\<rparr>)]"
  unfolding mergedRects_def sample_red_2x1 option.map by code_simp

text \<open>
  Claim C1, as the code has it: for the 2-by-1 buffer whose two pixels are
  both (255,0,0,255), the stride is 1 and the pipeline emits exactly one merged
  rectangle \<open>{x: 0, y: 0, width: 2, height: 1}\<close>; its fill is \<^verbatim>\<open>rgba(256,0,0,1)\<close>,
  since \<^verbatim>\<open>Math.round(127.5) * 2 = 256\<close>; the document declares width 2 and
  height 1.
\<close>

theorem C1_end_to_end:
  \<open>mergedRects 2 1 red_2x1 =
     Some [(''rgba(256,0,0,1)'', \<lparr>rect_x = 0, rect_y = 0, rect_width = 2, rect_height = 1\<rparr>)] \<and>
   convert 2 1 red_2x1 =
     Some (''<?xml version="1.0" encoding="UTF-8" standalone="no"?>'' @ [CHR 0x0A] @
       ''<svg width="2" height="1" xmlns="http://www.w3.org/2000/svg" viewBox="0 0 2 1">'' @
       [CHR 0x0A] @ ''  <rect x="0" y="0" width="2" height="1" fill="rgba(256,0,0,1)" />'' @
       [CHR 0x0A] @ ''</svg>'')\<close>
proof
  show "mergedRects 2 1 red_2x1 =
     Some [(''rgba(256,0,0,1)'', \<lparr>rect_x = 0, rect_y = 0, rect_width = 2, rect_height = 1\<rparr>)]"
    by (rule mergedRects_red_2x1)
  show \<open>convert 2 1 red_2x1 =
     Some (''<?xml version="1.0" encoding="UTF-8" standalone="no"?>'' @ [CHR 0x0A] @
       ''<svg width="2" height="1" xmlns="http://www.w3.org/2000/svg" viewBox="0 0 2 1">'' @
       [CHR 0x0A] @ ''  <rect x="0" y="0" width="2" height="1" fill="rgba(256,0,0,1)" />'' @
       [CHR 0x0A] @ ''</svg>'')\<close>
    unfolding convert_def sample_red_2x1 option.map by code_simp
qed

text \<open>
  Claim C1 as stated fails: the fill of the rectangle is not
  \<^verbatim>\<open>rgba(254,0,0,1)\<close>.
\<close>

theorem C1_counterexample:
  "mergedRects 2 1 red_2x1 \<noteq>
     Some [(''rgba(254,0,0,1)'', \<lparr>rect_x = 0, rect_y = 0, rect_width = 2, rect_height = 1\<rparr>)]"
  unfolding mergedRects_red_2x1 by simp

section \<open>Colour keys\<close>

text \<open>
  Claim C2, as the code has it: (100,100,100,255) has the key
  \<^verbatim>\<open>rgba(100,100,100,1)\<close> and (101,101,101,255) the key \<^verbatim>\<open>rgba(102,102,102,1)\<close>,
  which it shares with (102,102,102,255): \<^verbatim>\<open>Math.round\<close> takes the tie 50.5
  up to 51, so a channel keeps an even value and an odd value goes up by one.
\<close>

theorem C2_color_keys:
  "colorKey (Some 100) (Some 100) (Some 100) (Some 255) = ''rgba(100,100,100,1)'' \<and>
   colorKey (Some 101) (Some 101) (Some 101) (Some 255) = ''rgba(102,102,102,1)'' \<and>
   colorKey (Some 102) (Some 102) (Some 102) (Some 255) = ''rgba(102,102,102,1)'' \<and>
   Math_round (101 / 2) = 51 \<and>
   (\<forall>r. nat (Math_round (of_nat r / 2) * 2) = (if even r then r else r + 1))"
proof (intro conjI allI)
  show "colorKey (Some 100) (Some 100) (Some 100) (Some 255) = ''rgba(100,100,100,1)''"
    by code_simp
  show "colorKey (Some 101) (Some 101) (Some 101) (Some 255) = ''rgba(102,102,102,1)''"
    by code_simp
  show "colorKey (Some 102) (Some 102) (Some 102) (Some 255) = ''rgba(102,102,102,1)''"
    by code_simp
  show "Math_round (101 / 2) = 51"
    by code_simp
  show "nat (Math_round (of_nat r / 2) * 2) = (if even r then r else r + 1)" for r
    by (rule quantize_channel)
qed

text \<open>
  Claim C2 as stated fails: (100,100,100,255) and (101,101,101,255) have
  different colour keys.
\<close>

theorem C2_counterexample:
  "colorKey (Some 100) (Some 100) (Some 100) (Some 255) \<noteq>
   colorKey (Some 101) (Some 101) (Some 101) (Some 255)"
  by code_simp


section \<open>Skipped and kept samples\<close>

lemma sample_pixel_alt:
  "sample_pixel s W data y x cm =
     (if kept W data y x then colorMap_push (pixel_key W data y x) (cell s x y) cm else cm)"
  by (simp add: sample_pixel_def kept_def pixel_key_def cell_def Let_def)

lemma foldl_unchanged: "(\<And>v. v \<in> set vs \<Longrightarrow> f acc v = acc) \<Longrightarrow> foldl f acc vs = acc"
  by (induction vs) auto

lemma coords_less: "v' \<in> set (coords s v bound) \<Longrightarrow> v' < bound"
proof (induction s v bound rule: coords.induct)
  case (1 s v bound)
  from "1.prems" have step: "0 < s \<and> v < bound"
    by (subst (asm) coords.simps) (auto split: if_splits)
  with "1.prems" have "v' = v \<or> v' \<in> set (coords s (v + s) bound)"
    by (subst (asm) coords.simps) auto
  with step "1.IH" show ?case by auto
qed

lemma pixel_index_less:
  fixes x y W H :: nat
  assumes "y < H" "x < W"
  shows "y * W + x < W * H"
proof -
  from assms have "y * W + x < Suc y * W" by simp
  also from \<open>y < H\<close> have "\<dots> \<le> H * W" by (intro mult_le_mono1) simp
  finally show ?thesis by (simp add: mult.commute)
qed

lemma sample_no_kept:
  assumes "0 < s" and "\<And>y x. y < H \<Longrightarrow> x < W \<Longrightarrow> \<not> kept W data y x"
  shows "sample s W H data = Some []"
proof -
  have row: "foldl (\<lambda>cm x. sample_pixel s W data y x cm) cm (coords s 0 W) = cm"
    if "y < H" for y cm
    by (rule foldl_unchanged) (use that assms(2) in \<open>auto simp: sample_pixel_alt dest: coords_less\<close>)
  have "foldl (\<lambda>cm y. foldl (\<lambda>cm x. sample_pixel s W data y x cm) cm (coords s 0 W)) []
      (coords s 0 H) = []"
    by (rule foldl_unchanged) (auto simp: row dest: coords_less)
  with assms(1) show ?thesis by (simp add: sample_eq)
qed

lemma svgPaths_Nil: "svgPaths [] = []"
  by (simp add: svgPaths_def)

lemma emitted_Nil: "emitted [] = []"
  by (simp add: emitted_def)

text \<open>
  Claim C6: when every pixel of the buffer has alpha 0, no rectangle is
  emitted, and the document is the opening of the root element directly
  followed by its end.
\<close>

theorem C6_transparent:
  assumes "length data = 4 * W * H" and "\<forall>i < W * H. data ! (4 * i + 3) = 0"
  shows "mergedRects W H data = Some [] \<and> convert W H data = Some (svg_open W H @ svg_close)"
proof -
  have "\<not> kept W data y x" if "y < H" "x < W" for y x
  proof -
    from that have i: "y * W + x < W * H" by (rule pixel_index_less)
    with assms(1) have "(y * W + x) * 4 + 3 < length data" by simp
    moreover from i assms(2) have "data ! (4 * (y * W + x) + 3) = 0"
      by blast
    then have "data ! ((y * W + x) * 4 + 3) = 0"
      by (simp only: mult.commute [of 4])
    ultimately show ?thesis by (simp add: kept_def data_at_def)
  qed
  then have "sample (sampleRate W H) W H data = Some []"
    by (intro sample_no_kept sampleRate_pos) auto
  then show ?thesis
    by (simp add: convert_def mergedRects_def svgPaths_Nil emitted_Nil svg_def)
qed

text \<open>Claim C6 at the single transparent pixel (9,9,9,0).\<close>

theorem C6_transparent_witness:
  "length [9, 9, 9, 0 :: byte] = 4 * 1 * 1 \<and> [9, 9, 9, 0 :: byte] ! 3 = 0 \<and>
   mergedRects 1 1 [9, 9, 9, 0] = Some [] \<and>
   convert 1 1 [9, 9, 9, 0] = Some (svg_open 1 1 @ svg_close)"
  using C6_transparent [of "[9, 9, 9, 0]" 1 1] by simp

section \<open>Sorting and merging small buckets\<close>

lemmas merge_simps = sort_rects_def compare_rects_def optimizeRects_def cell_def

lemma perm3:
  assumes "mset cs = {#a, b, c#}"
  shows "cs \<in> {[a, b, c], [a, c, b], [b, a, c], [b, c, a], [c, a, b], [c, b, a]}"
proof -
  from assms have "length cs = 3"
    by (metis size_mset size_add_mset size_empty numeral_3_eq_3)
  then obtain p q r where cs: "cs = [p, q, r]"
    by (auto simp: numeral_3_eq_3 length_Suc_conv)
  with assms show ?thesis
    by (auto simp: add_eq_conv_ex)
qed

section \<open>The runs of \<^verbatim>\<open>optimizeRects\<close>\<close>

lemma merged_single: "merged [c] = c"
  by (simp add: merged_def)

lemma same_row_single: "same_row [c]"
  by (simp add: same_row_def)

lemma merged_snoc:
  "run \<noteq> [] \<Longrightarrow> (merged run)\<lparr>rect_width := rect_width (merged run) + rect_width c\<rparr> = merged (run @ [c])"
  by (simp add: merged_def)

lemma same_row_snoc:
  assumes "same_row run" "rect_y c = rect_y (merged run)" "rect_height c = rect_height (merged run)"
  shows "same_row (run @ [c])"
proof -
  from assms(1) have ne: "run \<noteq> []"
    by (simp add: same_row_def)
  from assms(2,3) have "rect_y (hd run) = rect_y c" "rect_height (hd run) = rect_height c"
    by (simp_all add: merged_def)
  with assms(1) ne show ?thesis
    unfolding same_row_def by (simp add: hd_append)
qed

lemma merge_loop_runs:
  "same_row run \<Longrightarrow>
     \<exists>runs. concat runs = run @ rest \<and> (\<forall>g \<in> set runs. same_row g) \<and>
       merge_loop (merged run) rest result = result @ map merged runs"
proof (induction rest arbitrary: run result)
  case Nil
  then have "concat [run] = run @ [] \<and> (\<forall>g \<in> set [run]. same_row g) \<and>
      merge_loop (merged run) [] result = result @ map merged [run]"
    by simp
  then show ?case by blast
next
  case (Cons c rest)
  show ?case
  proof (cases "rect_y c = rect_y (merged run) \<and> rect_height c = rect_height (merged run) \<and>
      rect_x c = rect_x (merged run) + rect_width (merged run)")
    case True
    with Cons.prems have row: "same_row (run @ [c])"
      by (simp add: same_row_snoc)
    from Cons.prems have ne: "run \<noteq> []"
      by (simp add: same_row_def)
    have step: "merge_loop (merged run) (c # rest) result =
        merge_loop (merged (run @ [c])) rest result"
      by (subst merge_loop.simps) (use True in \<open>simp add: merged_snoc [OF ne]\<close>)
    from Cons.IH [OF row, of result] obtain runs where
      r1: "concat runs = (run @ [c]) @ rest" and r2: "\<forall>g \<in> set runs. same_row g" and
      r3: "merge_loop (merged (run @ [c])) rest result = result @ map merged runs"
      by blast
    from r1 have "concat runs = run @ c # rest"
      by simp
    moreover from step r3 have "merge_loop (merged run) (c # rest) result = result @ map merged runs"
      by (rule trans)
    ultimately show ?thesis
      using r2 by blast
  next
    case False
    have step: "merge_loop (merged run) (c # rest) result =
        merge_loop (merged [c]) rest (result @ [merged run])"
      by (subst merge_loop.simps) (use False in \<open>auto simp: merged_single\<close>)
    from Cons.IH [OF same_row_single, of c "result @ [merged run]"] obtain runs where
      r1: "concat runs = [c] @ rest" and r2: "\<forall>g \<in> set runs. same_row g" and
      r3: "merge_loop (merged [c]) rest (result @ [merged run]) =
        (result @ [merged run]) @ map merged runs"
      by blast
    from r1 have "concat (run # runs) = run @ c # rest"
      by simp
    moreover from r2 Cons.prems have "\<forall>g \<in> set (run # runs). same_row g"
      by simp
    moreover from step r3 have "merge_loop (merged run) (c # rest) result =
        (result @ [merged run]) @ map merged runs"
      by (rule trans)
    then have "merge_loop (merged run) (c # rest) result = result @ map merged (run # runs)"
      by (simp only: list.map append_assoc append_Cons append_Nil)
    ultimately show ?thesis
      by blast
  qed
qed

lemma optimizeRects_runs:
  "\<exists>runs. concat runs = rects \<and> (\<forall>g \<in> set runs. same_row g) \<and>
     optimizeRects rects = map merged runs"
proof (cases rects)
  case Nil
  then have "concat [] = rects \<and> (\<forall>g \<in> set []. same_row g) \<and> optimizeRects rects = map merged []"
    by (simp add: optimizeRects_def)
  then show ?thesis by blast
next
  case (Cons c rest)
  from merge_loop_runs [OF same_row_single, of c rest "[]"] obtain runs where
    runs: "concat runs = c # rest" "\<forall>g \<in> set runs. same_row g"
    "merge_loop c rest [] = map merged runs"
    unfolding merged_single append_Nil append_Cons by blast
  show ?thesis
  proof (cases rest)
    case Nil
    with Cons have "concat [[c]] = rects \<and> (\<forall>g \<in> set [[c]]. same_row g) \<and>
        optimizeRects rects = map merged [[c]]"
      by (simp add: optimizeRects_def merged_single same_row_single)
    then show ?thesis by blast
  next
    case (Cons c' rest')
    with \<open>rects = c # rest\<close> have "optimizeRects rects = merge_loop c rest []"
      by (simp add: optimizeRects_def)
    with \<open>rects = c # rest\<close> runs show ?thesis
      by metis
  qed
qed

section \<open>Merging on a row and across rows\<close>

lemma emitted_Cons:
  "emitted ((key, rects) # cm) = map (Pair key) (optimizeRects (sort_rects rects)) @ emitted cm"
  by (simp add: emitted_def)

lemma merge_three:
  "mset cs = {#cell s 0 y, cell s s y, cell s (2 * s) y#} \<Longrightarrow>
     optimizeRects (sort_rects cs) =
       [\<lparr>rect_x = 0, rect_y = y, rect_width = 3 * s, rect_height = s\<rparr>]"
  by (drule perm3, cases "s = 0") (auto simp: merge_simps)

lemma perm2:
  assumes "mset cs = {#a, b#}"
  shows "cs = [a, b] \<or> cs = [b, a]"
proof -
  from assms have "length cs = 2"
    by (metis size_mset size_add_mset size_empty numeral_2_eq_2)
  then obtain p q where "cs = [p, q]"
    by (auto simp: numeral_2_eq_2 length_Suc_conv)
  with assms show ?thesis
    by (auto simp: add_eq_conv_ex)
qed

lemma merge_outer_two:
  "0 < s \<Longrightarrow> mset cs = {#cell s 0 y, cell s (2 * s) y#} \<Longrightarrow>
     optimizeRects (sort_rects cs) = [cell s 0 y, cell s (2 * s) y]"
  by (drule perm2) (auto simp: merge_simps)

text \<open>
  Claim C4: three cells of stride \<open>s\<close> on one row at \<open>x = 0, s, 2 * s\<close>, in
  any order, are sorted and merged into the one rectangle with \<open>x = 0\<close> and
  width \<open>3 * s\<close>, and a single bucket holding them emits that rectangle alone.
  When the middle cell has another colour (and \<open>s > 0\<close>, as every stride is),
  the bucket of the first colour gives the two rectangles at \<open>x = 0\<close> and
  \<open>x = 2 * s\<close> of width \<open>s\<close>, and the bucket of the middle colour its single
  cell.
\<close>

theorem C4_merge:
  "(\<forall>cs. mset cs = {#cell s 0 y, cell s s y, cell s (2 * s) y#} \<longrightarrow>
      optimizeRects (sort_rects cs) =
        [\<lparr>rect_x = 0, rect_y = y, rect_width = 3 * s, rect_height = s\<rparr>]) \<and>
   emitted (colorMap_push k (cell s (2 * s) y) (colorMap_push k (cell s s y)
       (colorMap_push k (cell s 0 y) []))) =
     [(k, \<lparr>rect_x = 0, rect_y = y, rect_width = 3 * s, rect_height = s\<rparr>)] \<and>
   (0 < s \<longrightarrow>
      (\<forall>cs. mset cs = {#cell s 0 y, cell s (2 * s) y#} \<longrightarrow>
         optimizeRects (sort_rects cs) = [cell s 0 y, cell s (2 * s) y]) \<and>
      optimizeRects (sort_rects [cell s s y]) = [cell s s y] \<and>
      (k \<noteq> k' \<longrightarrow>
         emitted (colorMap_push k (cell s (2 * s) y) (colorMap_push k' (cell s s y)
             (colorMap_push k (cell s 0 y) []))) =
           [(k, cell s 0 y), (k, cell s (2 * s) y), (k', cell s s y)]))"
proof (intro conjI impI allI)
  fix cs
  assume "mset cs = {#cell s 0 y, cell s s y, cell s (2 * s) y#}"
  then show "optimizeRects (sort_rects cs) =
      [\<lparr>rect_x = 0, rect_y = y, rect_width = 3 * s, rect_height = s\<rparr>]"
    by (rule merge_three)
next
  have "optimizeRects (sort_rects [cell s 0 y, cell s s y, cell s (2 * s) y]) =
      [\<lparr>rect_x = 0, rect_y = y, rect_width = 3 * s, rect_height = s\<rparr>]"
    by (rule merge_three) simp
  then show "emitted (colorMap_push k (cell s (2 * s) y) (colorMap_push k (cell s s y)
       (colorMap_push k (cell s 0 y) []))) =
     [(k, \<lparr>rect_x = 0, rect_y = y, rect_width = 3 * s, rect_height = s\<rparr>)]"
    by (simp add: emitted_Cons emitted_Nil)
next
  fix cs
  assume "0 < s" "mset cs = {#cell s 0 y, cell s (2 * s) y#}"
  then show "optimizeRects (sort_rects cs) = [cell s 0 y, cell s (2 * s) y]"
    by (rule merge_outer_two)
next
  show "optimizeRects (sort_rects [cell s s y]) = [cell s s y]"
    by (simp add: sort_rects_def optimizeRects_def)
next
  assume "0 < s" "k \<noteq> k'"
  have "optimizeRects (sort_rects [cell s 0 y, cell s (2 * s) y]) = [cell s 0 y, cell s (2 * s) y]"
    by (rule merge_outer_two [OF \<open>0 < s\<close>]) simp
  moreover have "optimizeRects (sort_rects [cell s s y]) = [cell s s y]"
    by (simp add: sort_rects_def optimizeRects_def)
  ultimately show "emitted (colorMap_push k (cell s (2 * s) y) (colorMap_push k' (cell s s y)
             (colorMap_push k (cell s 0 y) []))) =
           [(k, cell s 0 y), (k, cell s (2 * s) y), (k', cell s s y)]"
    using \<open>k \<noteq> k'\<close> by (simp add: emitted_Cons emitted_Nil)
qed

text \<open>Claim C4 at stride 2 with the colours red and blue.\<close>

theorem C4_merge_witness:
  "mset [cell 2 0 0, cell 2 2 0, cell 2 (2 * 2) 0] = {#cell 2 0 0, cell 2 2 0, cell 2 (2 * 2) 0#} \<and>
   optimizeRects (sort_rects [cell 2 0 0, cell 2 2 0, cell 2 (2 * 2) 0]) =
     [\<lparr>rect_x = 0, rect_y = 0, rect_width = 3 * 2, rect_height = 2\<rparr>] \<and>
   (0::nat) < 2 \<and> ''red'' \<noteq> ''blue'' \<and>
   emitted (colorMap_push ''red'' (cell 2 (2 * 2) 0) (colorMap_push ''blue'' (cell 2 2 0)
       (colorMap_push ''red'' (cell 2 0 0) []))) =
     [(''red'', cell 2 0 0), (''red'', cell 2 (2 * 2) 0), (''blue'', cell 2 2 0)]"
  using C4_merge [of 2 0 "''red''" "''blue''"] by simp

lemma two_rows:
  "rect_y a \<noteq> rect_y b \<Longrightarrow>
     optimizeRects (sort_rects [a, b]) = sort_rects [a, b] \<and> mset (sort_rects [a, b]) = {#a, b#}"
  by (auto simp: merge_simps)

text \<open>
  Claim C5: two cells stacked at \<open>(0, 0)\<close> and \<open>(0, s)\<close> with \<open>s > 0\<close> stay two
  rectangles, whatever their order in the bucket; any two rectangles with
  different \<open>y\<close> come out of sorting and merging unchanged; and in general
  \<^verbatim>\<open>optimizeRects\<close> cuts its input into consecutive runs, each of one row and
  one height, and returns one rectangle for each run.
\<close>

theorem C5_no_vertical_merge:
  "(0 < s \<longrightarrow>
      optimizeRects (sort_rects [cell s 0 0, cell s 0 s]) = [cell s 0 0, cell s 0 s] \<and>
      optimizeRects (sort_rects [cell s 0 s, cell s 0 0]) = [cell s 0 0, cell s 0 s]) \<and>
   (rect_y a \<noteq> rect_y b \<longrightarrow>
      optimizeRects (sort_rects [a, b]) = sort_rects [a, b] \<and>
      mset (sort_rects [a, b]) = {#a, b#}) \<and>
   (\<exists>runs. concat runs = rects \<and> (\<forall>g \<in> set runs. same_row g) \<and>
      optimizeRects rects = map merged runs)"
proof (intro conjI impI)
  assume "0 < s"
  then show "optimizeRects (sort_rects [cell s 0 0, cell s 0 s]) = [cell s 0 0, cell s 0 s]"
    by (simp add: merge_simps)
  from \<open>0 < s\<close> show "optimizeRects (sort_rects [cell s 0 s, cell s 0 0]) = [cell s 0 0, cell s 0 s]"
    by (simp add: merge_simps)
next
  assume "rect_y a \<noteq> rect_y b"
  then show "optimizeRects (sort_rects [a, b]) = sort_rects [a, b]"
    and "mset (sort_rects [a, b]) = {#a, b#}"
    by (simp_all add: two_rows)
next
  show "\<exists>runs. concat runs = rects \<and> (\<forall>g \<in> set runs. same_row g) \<and>
      optimizeRects rects = map merged runs"
    by (rule optimizeRects_runs)
qed

text \<open>Claim C5 at stride 3.\<close>

theorem C5_no_vertical_merge_witness:
  "(0::nat) < 3 \<and>
   optimizeRects (sort_rects [cell 3 0 0, cell 3 0 3]) = [cell 3 0 0, cell 3 0 3] \<and>
   rect_y (cell 3 0 0) \<noteq> rect_y (cell 3 0 3) \<and>
   optimizeRects (sort_rects [cell 3 0 3, cell 3 0 0]) = [cell 3 0 0, cell 3 0 3]"
  using C5_no_vertical_merge [of 3 "cell 3 0 0" "cell 3 0 3" "[]"] by (simp add: cell_def)


section \<open>The sampled coordinates\<close>

lemma coords_set:
  "0 < s \<Longrightarrow> set (coords s v bound) = {v'. v \<le> v' \<and> v' < bound \<and> s dvd (v' - v)}"
proof (induction s v bound rule: coords.induct)
  case (1 s v bound)
  show ?case
  proof (cases "v < bound")
    case False
    with "1.prems" show ?thesis
      by (subst coords.simps) auto
  next
    case True
    have split: "(v \<le> v' \<and> s dvd (v' - v)) \<longleftrightarrow> (v' = v \<or> (v + s \<le> v' \<and> s dvd (v' - (v + s))))"
      for v'
    proof
      assume a: "v \<le> v' \<and> s dvd (v' - v)"
      show "v' = v \<or> (v + s \<le> v' \<and> s dvd (v' - (v + s)))"
      proof (cases "v' = v")
        case False
        with a have "0 < v' - v" by simp
        with a have "s \<le> v' - v" by (simp add: dvd_imp_le)
        with a have "v + s \<le> v'" by linarith
        moreover have "s dvd (v' - v) - s" by (rule dvd_diff_nat) (use a in simp_all)
        then have "s dvd v' - (v + s)" by (simp only: diff_diff_left)
        ultimately show ?thesis by blast
      qed simp
    next
      assume "v' = v \<or> (v + s \<le> v' \<and> s dvd (v' - (v + s)))"
      then show "v \<le> v' \<and> s dvd (v' - v)"
      proof
        assume b: "v + s \<le> v' \<and> s dvd (v' - (v + s))"
        then have eq: "v' - v = (v' - (v + s)) + s" by simp
        from b have "s dvd (v' - (v + s)) + s" by (intro dvd_add) simp_all
        with eq have "s dvd v' - v" by (simp only:)
        moreover from b have "v \<le> v'" by linarith
        ultimately show ?thesis by blast
      qed simp
    qed
    from True "1.prems" have "set (coords s v bound) = insert v (set (coords s (v + s) bound))"
      by (subst coords.simps) simp
    also from True "1.prems" have "\<dots> = insert v {v'. v + s \<le> v' \<and> v' < bound \<and> s dvd (v' - (v + s))}"
      by (simp add: "1.IH")
    also from True have "\<dots> = {v'. v \<le> v' \<and> v' < bound \<and> s dvd (v' - v)}"
      using split by auto
    finally show ?thesis .
  qed
qed

lemma coords_set0: "0 < s \<Longrightarrow> set (coords s 0 bound) = {v. v < bound \<and> s dvd v}"
  by (simp add: coords_set)

lemma distinct_coords: "distinct (coords s v bound)"
proof (induction s v bound rule: coords.induct)
  case (1 s v bound)
  show ?case
  proof (cases "0 < s \<and> v < bound")
    case True
    then have "v \<notin> set (coords s (v + s) bound)"
      by (simp add: coords_set)
    with True "1.IH" show ?thesis
      by (subst coords.simps) simp
  next
    case False
    then show ?thesis
      by (subst coords.simps) auto
  qed
qed

section \<open>The stride of the sampling loops\<close>

lemma sorted_coords: "sorted_wrt (<) (coords s v bound)"
proof (induction s v bound rule: coords.induct)
  case (1 s v bound)
  show ?case
  proof (cases "0 < s \<and> v < bound")
    case True
    then have "\<forall>v' \<in> set (coords s (v + s) bound). v < v'"
      by (auto simp: coords_set)
    with True "1.IH" show ?thesis
      by (subst coords.simps) simp
  next
    case False
    then show ?thesis
      by (subst coords.simps) auto
  qed
qed

lemma coords_multiples:
  assumes "0 < s"
  shows "coords s 0 bound = filter (\<lambda>v. s dvd v) [0..<bound]"
proof (rule sorted_distinct_set_unique)
  show "sorted (coords s 0 bound)"
    using sorted_coords [of s 0 bound] by (simp add: strict_sorted_iff)
  show "distinct (coords s 0 bound)"
    by (rule distinct_coords)
  show "sorted (filter (\<lambda>v. s dvd v) [0..<bound])"
    by (rule sorted_wrt_filter) simp
  show "distinct (filter (\<lambda>v. s dvd v) [0..<bound])"
    by simp
  show "set (coords s 0 bound) = set (filter (\<lambda>v. s dvd v) [0..<bound])"
    using assms by (auto simp: coords_set0)
qed

text \<open>
  Claim C7: the sample rate of a \<open>W\<close> by \<open>H\<close> canvas is
  \<open>max 1 (min W H div 400)\<close>, and this is the rate the conversion samples at:
  the loops return, having run the loop body, with cells of that size, at
  exactly the \<open>y < H\<close> and \<open>x < W\<close> that are multiples of the rate, rows in
  ascending order and columns in ascending order within a row. When the
  shorter side is at most 400 the rate is 1, and the loops visit every pixel
  \<open>(x, y)\<close> with \<open>x < W\<close> and \<open>y < H\<close>.
\<close>

theorem C7_stride:
  "sampleRate W H = max 1 (min W H div 400) \<and>
   convert W H data =
     map_option (\<lambda>cm. svg W H (svgPaths cm)) (sample (max 1 (min W H div 400)) W H data) \<and>
   sample (sampleRate W H) W H data =
     Some (foldl (\<lambda>cm y.
         foldl (\<lambda>cm x. sample_pixel (max 1 (min W H div 400)) W data y x cm) cm
           (filter (\<lambda>x. max 1 (min W H div 400) dvd x) [0..<W]))
       [] (filter (\<lambda>y. max 1 (min W H div 400) dvd y) [0..<H])) \<and>
   (min W H \<le> 400 \<longrightarrow>
      sampleRate W H = 1 \<and>
      sample (sampleRate W H) W H data =
        Some (foldl (\<lambda>cm y. foldl (\<lambda>cm x. sample_pixel 1 W data y x cm) cm [0..<W]) [] [0..<H]))"
proof (intro conjI impI)
  show rate: "sampleRate W H = max 1 (min W H div 400)"
    by (rule sampleRate_eq)
  show "convert W H data =
     map_option (\<lambda>cm. svg W H (svgPaths cm)) (sample (max 1 (min W H div 400)) W H data)"
    by (simp only: convert_def sampleRate_eq)
  have pos: "0 < max 1 (min W H div 400)"
    by simp
  show "sample (sampleRate W H) W H data =
     Some (foldl (\<lambda>cm y.
         foldl (\<lambda>cm x. sample_pixel (max 1 (min W H div 400)) W data y x cm) cm
           (filter (\<lambda>x. max 1 (min W H div 400) dvd x) [0..<W]))
       [] (filter (\<lambda>y. max 1 (min W H div 400) dvd y) [0..<H]))"
    unfolding rate by (simp only: sample_eq [OF pos] coords_multiples [OF pos])
  assume "min W H \<le> 400"
  then have "min W H div 400 \<le> 1"
    by (cases "min W H = 400") auto
  then show one: "sampleRate W H = 1"
    by (simp add: sampleRate_eq)
  show "sample (sampleRate W H) W H data =
        Some (foldl (\<lambda>cm y. foldl (\<lambda>cm x. sample_pixel 1 W data y x cm) cm [0..<W]) [] [0..<H])"
    unfolding one by (simp only: sample_eq [OF zero_less_one] coords_one)
qed

text \<open>Claim C7 at the canvases 2 by 1 and 1200 by 900.\<close>

theorem C7_stride_witness:
  "min (2::nat) 1 \<le> 400 \<and> sampleRate 2 1 = 1 \<and> sampleRate 1200 900 = 2"
  using C7_stride [of 2 1 red_2x1] C7_stride [of 1200 900 "[]"] by simp

section \<open>The samples in scan order\<close>

lemma foldl_product:
  "foldl f acc (List.product ys xs) = foldl (\<lambda>acc y. foldl (\<lambda>acc x. f acc (y, x)) acc xs) acc ys"
  by (induction ys arbitrary: acc) (simp_all add: foldl_map)

lemma foldl_sample_pixel:
  "foldl (\<lambda>cm (y, x). sample_pixel s W data y x cm) cm ps =
     foldl (\<lambda>cm (key, rect). colorMap_push key rect cm) cm
       (map (\<lambda>(y, x). (pixel_key W data y x, cell s x y))
         (filter (\<lambda>(y, x). kept W data y x) ps))"
  by (induction ps arbitrary: cm) (auto simp: sample_pixel_alt)

lemma sample_samples:
  assumes "0 < s"
  shows "sample s W H data =
     Some (foldl (\<lambda>cm (key, rect). colorMap_push key rect cm) [] (samples s W H data))"
proof -
  have "foldl (\<lambda>cm y. foldl (\<lambda>cm x. sample_pixel s W data y x cm) cm (coords s 0 W)) []
      (coords s 0 H) = foldl (\<lambda>cm (y, x). sample_pixel s W data y x cm) [] (grid s W H)"
    unfolding grid_def by (subst foldl_product) simp
  with assms show ?thesis
    by (simp add: sample_eq foldl_sample_pixel samples_def)
qed

lemma distinct_grid: "distinct (grid s W H)"
  by (simp add: grid_def distinct_product distinct_coords)

lemma grid_set:
  "0 < s \<Longrightarrow> (y, x) \<in> set (grid s W H) \<longleftrightarrow> y < H \<and> s dvd y \<and> x < W \<and> s dvd x"
  by (auto simp: grid_def coords_set0)

section \<open>Buckets of the colour map\<close>

lemma bucket_Nil: "bucket [] key = []"
  by (simp add: bucket_def)

lemma bucket_Cons: "bucket ((k, rects) # cm) key = (if k = key then rects else bucket cm key)"
  by (simp add: bucket_def)

lemma bucket_push:
  "bucket (colorMap_push key rect cm) k = bucket cm k @ (if k = key then [rect] else [])"
  by (induction key rect cm rule: colorMap_push.induct) (auto simp: bucket_Nil bucket_Cons)

lemma keys_push: "set (map fst (colorMap_push key rect cm)) = insert key (set (map fst cm))"
  by (induction key rect cm rule: colorMap_push.induct) auto

lemma distinct_keys_push:
  "distinct (map fst cm) \<Longrightarrow> distinct (map fst (colorMap_push key rect cm))"
proof (induction key rect cm rule: colorMap_push.induct)
  case (2 key rect k rects cm)
  then show ?case
    using keys_push [of key rect cm] by (auto simp del: set_map)
qed simp

lemma mset_push:
  "mset (concat (map snd (colorMap_push key rect cm))) = add_mset rect (mset (concat (map snd cm)))"
  by (induction key rect cm rule: colorMap_push.induct) auto

lemma bucket_foldl:
  "bucket (foldl (\<lambda>cm (key, rect). colorMap_push key rect cm) cm kcs) k =
     bucket cm k @ map snd (filter (\<lambda>p. fst p = k) kcs)"
  by (induction kcs arbitrary: cm) (auto simp: bucket_push)

lemma distinct_keys_foldl:
  "distinct (map fst cm) \<Longrightarrow>
     distinct (map fst (foldl (\<lambda>cm (key, rect). colorMap_push key rect cm) cm kcs))"
  by (induction kcs arbitrary: cm) (auto simp: distinct_keys_push)

lemma keys_foldl:
  "set (map fst (foldl (\<lambda>cm (key, rect). colorMap_push key rect cm) cm kcs)) =
     set (map fst cm) \<union> set (map fst kcs)"
  by (induction kcs arbitrary: cm) (auto simp: keys_push simp del: set_map)

lemma mset_foldl:
  "mset (concat (map snd (foldl (\<lambda>cm (key, rect). colorMap_push key rect cm) cm kcs))) =
     mset (concat (map snd cm)) + mset (map snd kcs)"
  by (induction kcs arbitrary: cm) (auto simp: mset_push)

lemma bucket_absent: "key \<notin> set (map fst cm) \<Longrightarrow> bucket cm key = []"
  by (induction cm) (auto simp: bucket_Nil bucket_Cons)

lemma bucket_member:
  "distinct (map fst cm) \<Longrightarrow> (key, rects) \<in> set cm \<Longrightarrow> bucket cm key = rects"
  by (simp add: bucket_def)

section \<open>The emitted rectangles\<close>

lemma optimizeRects_Nil: "optimizeRects (sort_rects []) = []"
  by (simp add: optimizeRects_def sort_rects_def)

lemma emitted_of_key:
  "distinct (map fst cm) \<Longrightarrow>
     filter (\<lambda>p. fst p = key) (emitted cm) =
       map (Pair key) (optimizeRects (sort_rects (bucket cm key)))"
proof (induction cm)
  case Nil
  then show ?case
    by (simp add: emitted_Nil bucket_Nil optimizeRects_Nil)
next
  case (Cons entry cm)
  obtain k rects where entry: "entry = (k, rects)"
    by (cases entry)
  show ?case
  proof (cases "k = key")
    case True
    with Cons.prems entry have "bucket cm key = []"
      by (intro bucket_absent) simp
    with Cons True entry show ?thesis
      by (simp add: emitted_Cons bucket_Cons optimizeRects_Nil filter_map comp_def)
  next
    case False
    with Cons entry show ?thesis
      by (simp add: emitted_Cons bucket_Cons filter_map comp_def)
  qed
qed

lemma svgPaths_emitted:
  "svgPaths cm = concat (map (\<lambda>(color, rect). rect_element rect color) (emitted cm))"
  by (induction cm) (auto simp: svgPaths_def emitted_def map_concat comp_def)

lemma emitted_keys: "(key, rect) \<in> set (emitted cm) \<Longrightarrow> key \<in> set (map fst cm)"
proof (induction cm)
  case Nil
  then show ?case by (simp add: emitted_Nil)
next
  case (Cons entry cm)
  then show ?case by (cases entry) (auto simp: emitted_Cons)
qed

section \<open>Sorting a bucket\<close>

lemma mset_insort_rect: "mset (insort_rect a bs) = add_mset a (mset bs)"
  by (induction bs) auto

lemma mset_sort_rects: "mset (sort_rects rects) = mset rects"
  by (induction rects) (auto simp: sort_rects_def mset_insort_rect)

lemma set_insort_rect: "set (insort_rect a bs) = insert a (set bs)"
  using mset_insort_rect [of a bs] by (metis set_mset_add_mset_insert set_mset_mset)

lemma set_sort_rects: "set (sort_rects rects) = set rects"
  using mset_sort_rects [of rects] by (metis set_mset_mset)

lemma compare_rects_before:
  "compare_rects a b \<le> 0 \<longleftrightarrow> before a b \<or> (rect_y a = rect_y b \<and> rect_x a = rect_x b)"
  by (auto simp: compare_rects_def before_def)

lemma before_trans: "before a b \<Longrightarrow> before b c \<Longrightarrow> before a c"
  by (auto simp: before_def)

lemma sorted_insort_rect:
  assumes "sorted_wrt before bs"
    and "\<forall>b \<in> set bs. \<not> (rect_y a = rect_y b \<and> rect_x a = rect_x b)"
  shows "sorted_wrt before (insort_rect a bs)"
  using assms
proof (induction bs)
  case Nil
  then show ?case by simp
next
  case (Cons b bs)
  show ?case
  proof (cases "compare_rects a b \<le> 0")
    case True
    with Cons.prems have ab: "before a b"
      by (auto simp: compare_rects_before)
    with Cons.prems have "\<forall>c \<in> set bs. before a c"
      by (auto intro: before_trans)
    with True ab Cons.prems show ?thesis by simp
  next
    case False
    with Cons.prems have ba: "before b a"
      by (auto simp: compare_rects_before before_def)
    from Cons have "sorted_wrt before (insort_rect a bs)"
      by simp
    with False ba Cons.prems show ?thesis
      by (simp add: set_insort_rect)
  qed
qed

lemma sorted_sort_rects:
  "distinct (map (\<lambda>c. (rect_y c, rect_x c)) rects) \<Longrightarrow> sorted_wrt before (sort_rects rects)"
proof (induction rects)
  case Nil
  then show ?case by (simp add: sort_rects_def)
next
  case (Cons a rects)
  then have "sorted_wrt before (sort_rects rects)"
    by simp
  moreover from Cons.prems have "\<forall>b \<in> set (sort_rects rects). \<not> (rect_y a = rect_y b \<and> rect_x a = rect_x b)"
    by (auto simp: set_sort_rects image_iff)
  ultimately have "sorted_wrt before (insort_rect a (sort_rects rects))"
    by (rule sorted_insort_rect)
  then show ?case by (simp add: sort_rects_def)
qed

section \<open>Merging a sorted bucket\<close>

lemma merge_loop_result: "merge_loop cur rest result = result @ merge_loop cur rest []"
proof (induction rest arbitrary: cur result)
  case Nil
  show ?case by simp
next
  case (Cons c rest)
  show ?case
  proof (cases "rect_y c = rect_y cur \<and> rect_height c = rect_height cur \<and>
      rect_x c = rect_x cur + rect_width cur")
    case True
    then have step: "merge_loop cur (c # rest) res =
        merge_loop (cur\<lparr>rect_width := rect_width cur + rect_width c\<rparr>) rest res" for res
      by simp
    show ?thesis
      unfolding step by (rule Cons.IH)
  next
    case False
    then have step: "merge_loop cur (c # rest) res = merge_loop c rest (res @ [cur])" for res
      by auto
    have "merge_loop c rest (result @ [cur]) = (result @ [cur]) @ merge_loop c rest []"
      by (rule Cons.IH)
    moreover have "merge_loop c rest ([] @ [cur]) = ([] @ [cur]) @ merge_loop c rest []"
      by (rule Cons.IH)
    ultimately show ?thesis
      unfolding step by simp
  qed
qed

lemma cell_covers_cell: "on_grid s r \<Longrightarrow> on_grid s c \<Longrightarrow> covers r c \<longleftrightarrow> c = r"
  by (cases r, cases c) (auto simp: on_grid_def covers_def)

lemma grid_step:
  assumes "s dvd a" "s dvd b" "a < b"
  shows "a + s \<le> (b::nat)"
proof -
  from assms(1,2) obtain i j where "a = s * i" "b = s * j"
    by (auto elim!: dvdE)
  moreover with assms(3) have "i < j"
    by (cases "s = 0") auto
  then have "s * Suc i \<le> s * j"
    by (intro mult_le_mono2) simp
  then have "s * i + s \<le> s * j"
    by simp
  ultimately show ?thesis by simp
qed

lemma merge_loop_covers:
  assumes "0 < s" "on_grid s c"
    and "\<forall>r \<in> set rest. on_grid s r" "sorted_wrt before rest"
    and "rect_height cur = s" "s dvd rect_x cur" "s dvd rect_width cur"
    and "\<forall>r \<in> set rest. after cur r"
  shows "length (filter (\<lambda>r. covers r c) (merge_loop cur rest [])) =
     (if covers cur c \<or> c \<in> set rest then 1 else 0)"
  using assms(3-)
proof (induction rest arbitrary: cur)
  case Nil
  then show ?case by simp
next
  case (Cons r rest)
  from Cons.prems have r: "on_grid s r" and rest: "\<forall>r' \<in> set rest. on_grid s r'"
    and sorted: "sorted_wrt before rest" and r_rest: "\<forall>r' \<in> set rest. before r r'"
    and cur_r: "after cur r" and cur_rest: "\<forall>r' \<in> set rest. after cur r'"
    by simp_all
  have r_after: "after r r'" if "r' \<in> set rest" for r'
  proof -
    from that r_rest have b: "before r r'" by blast
    from that rest r have "s dvd rect_x r" "s dvd rect_x r'" "rect_width r = s"
      by (simp_all add: on_grid_def)
    with b show ?thesis
      by (auto simp: before_def after_def dest: grid_step)
  qed
  show ?case
  proof (cases "rect_y r = rect_y cur \<and> rect_height r = rect_height cur \<and>
      rect_x r = rect_x cur + rect_width cur")
    case True
    let ?cur = "cur\<lparr>rect_width := rect_width cur + rect_width r\<rparr>"
    from True have step: "merge_loop cur (r # rest) [] = merge_loop ?cur rest []"
      by simp
    have "\<forall>r' \<in> set rest. after ?cur r'"
    proof
      fix r' assume "r' \<in> set rest"
      then have "after r r'" by (rule r_after)
      with True show "after ?cur r'"
        by (auto simp: after_def)
    qed
    moreover from Cons.prems r have "rect_height ?cur = s" "s dvd rect_x ?cur" "s dvd rect_width ?cur"
      by (simp_all add: on_grid_def)
    ultimately have IH: "length (filter (\<lambda>r. covers r c) (merge_loop ?cur rest [])) =
        (if covers ?cur c \<or> c \<in> set rest then 1 else 0)"
      using rest sorted by (intro Cons.IH)
    have "covers ?cur c \<longleftrightarrow> covers cur c \<or> c = r"
    proof
      assume cov: "covers ?cur c"
      show "covers cur c \<or> c = r"
      proof (cases "rect_x c + rect_width c \<le> rect_x cur + rect_width cur")
        case True
        with cov show ?thesis by (simp add: covers_def)
      next
        case False
        from cov r assms(2) have le: "rect_x c \<le> rect_x cur + rect_width cur"
          by (simp add: covers_def on_grid_def)
        have "rect_x c = rect_x cur + rect_width cur"
        proof (rule ccontr)
          assume "rect_x c \<noteq> rect_x cur + rect_width cur"
          with le have "rect_x c < rect_x cur + rect_width cur" by simp
          moreover from assms(2) have "s dvd rect_x c" by (simp add: on_grid_def)
          moreover from Cons.prems have "s dvd rect_x cur + rect_width cur" by simp
          ultimately have "rect_x c + s \<le> rect_x cur + rect_width cur"
            by (intro grid_step)
          with False assms(2) show False by (simp add: on_grid_def)
        qed
        with cov True r assms(2) have "covers r c"
          by (simp add: covers_def on_grid_def)
        with r assms(2) show ?thesis by (simp add: cell_covers_cell)
      qed
    next
      assume "covers cur c \<or> c = r"
      then show "covers ?cur c"
      proof
        assume "covers cur c"
        then show ?thesis by (simp add: covers_def)
      next
        assume "c = r"
        with True r show ?thesis by (simp add: covers_def on_grid_def)
      qed
    qed
    with IH step show ?thesis by auto
  next
    case False
    then have "merge_loop cur (r # rest) [] = merge_loop r rest ([] @ [cur])"
      by auto
    then have step: "merge_loop cur (r # rest) [] = cur # merge_loop r rest []"
      by (simp add: merge_loop_result [of r rest "[cur]"])
    from r have "rect_height r = s" "s dvd rect_x r" "s dvd rect_width r"
      by (simp_all add: on_grid_def)
    moreover have "\<forall>r' \<in> set rest. after r r'"
      using r_after by blast
    ultimately have IH: "length (filter (\<lambda>r. covers r c) (merge_loop r rest [])) =
        (if covers r c \<or> c \<in> set rest then 1 else 0)"
      using rest sorted by (intro Cons.IH)
    have excl: "\<not> covers cur c" if "c \<in> set (r # rest)"
    proof
      assume cov: "covers cur c"
      from that cur_r cur_rest have "after cur c" by auto
      with cov assms(1,2) show False
        by (auto simp: covers_def after_def on_grid_def)
    qed
    from r assms(2) have "covers r c \<longleftrightarrow> c = r"
      by (rule cell_covers_cell)
    with IH step excl show ?thesis by auto
  qed
qed

lemma optimizeRects_covers:
  assumes "0 < s" "on_grid s c" "\<forall>r \<in> set rects. on_grid s r" "sorted_wrt before rects"
  shows "length (filter (\<lambda>r. covers r c) (optimizeRects rects)) = (if c \<in> set rects then 1 else 0)"
proof (cases rects)
  case Nil
  then show ?thesis by (simp add: optimizeRects_def)
next
  case (Cons a rest)
  with assms have a: "on_grid s a" by simp
  show ?thesis
  proof (cases rest)
    case Nil
    with Cons a assms(2) show ?thesis
      by (simp add: optimizeRects_def cell_covers_cell)
  next
    case (Cons b rest')
    with \<open>rects = a # rest\<close> have opt: "optimizeRects rects = merge_loop a rest []"
      by (simp add: optimizeRects_def)
    have "\<forall>r \<in> set rest. after a r"
    proof
      fix r assume r: "r \<in> set rest"
      with assms(4) \<open>rects = a # rest\<close> have "before a r" by simp
      moreover from r assms(3) \<open>rects = a # rest\<close> a have "s dvd rect_x a" "s dvd rect_x r" "rect_width a = s"
        by (simp_all add: on_grid_def)
      ultimately show "after a r"
        by (auto simp: before_def after_def dest: grid_step)
    qed
    moreover from a have "rect_height a = s" "s dvd rect_x a" "s dvd rect_width a"
      by (simp_all add: on_grid_def)
    moreover from assms(3,4) \<open>rects = a # rest\<close> have "\<forall>r \<in> set rest. on_grid s r" "sorted_wrt before rest"
      by simp_all
    ultimately have "length (filter (\<lambda>r. covers r c) (merge_loop a rest [])) =
        (if covers a c \<or> c \<in> set rest then 1 else 0)"
      using assms(1,2) by (intro merge_loop_covers)
    with opt a assms(2) \<open>rects = a # rest\<close> show ?thesis
      by (auto simp: cell_covers_cell)
  qed
qed

section \<open>Every kept sample is covered once\<close>

lemma samples_member:
  "(key, c) \<in> set (samples s W H data) \<longleftrightarrow>
     (\<exists>y x. (y, x) \<in> set (grid s W H) \<and> kept W data y x \<and> key = pixel_key W data y x \<and>
        c = cell s x y)"
  by (auto simp: samples_def)

lemma samples_positions:
  "map (\<lambda>p. (rect_y (snd p), rect_x (snd p))) (samples s W H data) =
     filter (\<lambda>(y, x). kept W data y x) (grid s W H)"
proof -
  have "map ((\<lambda>p. (rect_y (snd p), rect_x (snd p))) \<circ> (\<lambda>(y, x). (pixel_key W data y x, cell s x y))) ps = ps"
    for ps :: "(nat \<times> nat) list"
    by (induction ps) (auto simp: cell_def)
  then show ?thesis
    by (simp add: samples_def)
qed

lemma distinct_samples_positions:
  "distinct (map (\<lambda>p. (rect_y (snd p), rect_x (snd p))) (samples s W H data))"
  by (simp add: samples_positions distinct_grid)

lemma samples_on_grid:
  assumes "0 < s" "(key, c) \<in> set (samples s W H data)"
  shows "on_grid s c"
proof -
  from assms(2) obtain y x where "(y, x) \<in> set (grid s W H)" "c = cell s x y"
    by (auto simp: samples_member)
  with assms(1) show ?thesis
    by (simp add: grid_set on_grid_def cell_def)
qed

lemma bucket_samples:
  "bucket (foldl (\<lambda>cm (key, rect). colorMap_push key rect cm) [] kcs) k =
     map snd (filter (\<lambda>p. fst p = k) kcs)"
  by (simp add: bucket_foldl bucket_Nil)

lemma sampled_cell_covered:
  assumes "0 < s" "x < W" "y < H" "s dvd x" "s dvd y" "kept W data y x"
  shows "\<exists>cm. sample s W H data = Some cm \<and> distinct (map fst cm) \<and>
     count_list (concat (map snd cm)) (cell s x y) = 1 \<and>
     cell s x y \<in> set (bucket cm (pixel_key W data y x)) \<and>
     length (filter (\<lambda>r. covers r (cell s x y))
       (optimizeRects (sort_rects (bucket cm (pixel_key W data y x))))) = 1 \<and>
     length (filter (\<lambda>(key, r). key = pixel_key W data y x \<and> covers r (cell s x y))
       (emitted cm)) = 1"
proof -
  define kcs where "kcs = samples s W H data"
  define cm where "cm = foldl (\<lambda>cm (key, rect). colorMap_push key rect cm) [] kcs"
  define key where "key = pixel_key W data y x"
  define c where "c = cell s x y"
  define rects where "rects = bucket cm key"
  have sample: "sample s W H data = Some cm"
    using assms(1) by (simp add: sample_samples cm_def kcs_def)
  have keys: "distinct (map fst cm)"
    unfolding cm_def by (rule distinct_keys_foldl) simp
  have member: "(key, c) \<in> set kcs"
    using assms by (auto simp: kcs_def key_def c_def samples_member grid_set)
  have c: "on_grid s c"
    using assms(1) member unfolding kcs_def by (rule samples_on_grid)
  have pos: "distinct (map (\<lambda>p. (rect_y (snd p), rect_x (snd p))) kcs)"
    unfolding kcs_def by (rule distinct_samples_positions)
  have rects: "rects = map snd (filter (\<lambda>p. fst p = key) kcs)"
    by (simp add: rects_def cm_def bucket_samples)
  have in_rects: "c \<in> set rects"
    using member by (force simp: rects)

  have "distinct (map ((\<lambda>c. (rect_y c, rect_x c)) \<circ> snd) kcs)"
    using pos by (simp add: comp_def)
  then have "distinct (map snd kcs)"
    by (simp only: distinct_map [of "(\<lambda>c. (rect_y c, rect_x c)) \<circ> snd"] distinct_map [of snd]
        inj_on_imageI2 [of "\<lambda>c. (rect_y c, rect_x c)" snd] simp_thms)
  moreover have "mset (concat (map snd cm)) = mset (map snd kcs)"
    by (simp add: cm_def mset_foldl)
  moreover from member have "c \<in> set (map snd kcs)"
    by force
  ultimately have once: "count_list (concat (map snd cm)) c = 1"
    by (metis count_mset distinct_count_atmost_1)

  have "distinct (map (\<lambda>c. (rect_y c, rect_x c)) rects)"
    using pos by (simp add: rects comp_def distinct_map_filter)
  then have sorted: "sorted_wrt before (sort_rects rects)"
    by (rule sorted_sort_rects)
  have "\<forall>r \<in> set rects. on_grid s r"
    using assms(1) by (auto simp: rects kcs_def intro: samples_on_grid)
  then have "\<forall>r \<in> set (sort_rects rects). on_grid s r"
    by (simp add: set_sort_rects)
  with assms(1) c sorted have "length (filter (\<lambda>r. covers r c) (optimizeRects (sort_rects rects))) =
      (if c \<in> set (sort_rects rects) then 1 else 0)"
    by (intro optimizeRects_covers)
  with in_rects have covered: "length (filter (\<lambda>r. covers r c) (optimizeRects (sort_rects rects))) = 1"
    by (simp add: set_sort_rects)

  have "filter (\<lambda>(k, r). k = key \<and> covers r c) (emitted cm) =
      filter (\<lambda>p. covers (snd p) c) (filter (\<lambda>p. fst p = key) (emitted cm))"
    by (simp add: case_prod_unfold conj_commute)
  also have "\<dots> = filter (\<lambda>p. covers (snd p) c) (map (Pair key) (optimizeRects (sort_rects rects)))"
    by (simp only: emitted_of_key [OF keys] rects_def)
  also have "\<dots> = map (Pair key) (filter (\<lambda>r. covers r c) (optimizeRects (sort_rects rects)))"
    by (simp add: filter_map comp_def)
  finally have "length (filter (\<lambda>(k, r). k = key \<and> covers r c) (emitted cm)) = 1"
    using covered by simp
  with sample keys once in_rects covered show ?thesis
    unfolding rects_def key_def c_def by blast
qed

lemma kept_alpha:
  "data_at data ((y * W + x) * 4 + 3) = Some a \<Longrightarrow> 0 < a \<Longrightarrow> kept W data y x"
  by (simp add: kept_def)

text \<open>
  Claim C9: for a stride \<open>s > 0\<close> and a sampled coordinate \<open>(x, y)\<close> of the
  grid (\<open>x < W\<close>, \<open>y < H\<close>, both multiples of \<open>s\<close>) whose alpha byte is
  greater than 0, the sampling loops return a colour map with one bucket for
  each key, in which the cell of \<open>(x, y)\<close> occurs exactly once over all
  buckets, namely in the bucket of the pixel's colour key; after sorting and
  merging that bucket, exactly one rectangle covers the cell, and exactly one
  emitted rectangle of that colour does.
\<close>

theorem C9_coverage:
  assumes "0 < s" "x < W" "y < H" "s dvd x" "s dvd y"
    and "data_at data ((y * W + x) * 4 + 3) = Some a" "0 < a"
  shows "\<exists>cm. sample s W H data = Some cm \<and> distinct (map fst cm) \<and>
     count_list (concat (map snd cm)) (cell s x y) = 1 \<and>
     cell s x y \<in> set (bucket cm (pixel_key W data y x)) \<and>
     length (filter (\<lambda>r. covers r (cell s x y))
       (optimizeRects (sort_rects (bucket cm (pixel_key W data y x))))) = 1 \<and>
     length (filter (\<lambda>(key, r). key = pixel_key W data y x \<and> covers r (cell s x y))
       (emitted cm)) = 1"
  using assms(1-5) kept_alpha [OF assms(6,7)] by (rule sampled_cell_covered)

text \<open>Claim C9 at the second pixel of the 2-by-1 red buffer, stride 1.\<close>

theorem C9_coverage_witness:
  "\<exists>cm. sample 1 2 1 red_2x1 = Some cm \<and> distinct (map fst cm) \<and>
     count_list (concat (map snd cm)) (cell 1 1 0) = 1 \<and>
     cell 1 1 0 \<in> set (bucket cm (pixel_key 2 red_2x1 0 1)) \<and>
     length (filter (\<lambda>r. covers r (cell 1 1 0))
       (optimizeRects (sort_rects (bucket cm (pixel_key 2 red_2x1 0 1))))) = 1"
proof -
  have "data_at red_2x1 ((0 * 2 + 1) * 4 + 3) = Some 255"
    by (simp add: data_at_def red_2x1_def)
  from C9_coverage [of 1 1 2 0 1 red_2x1 255, OF _ _ _ _ _ this] show ?thesis
    by auto
qed

section \<open>Nearly transparent pixels\<close>










section \<open>The shape of the document\<close>

lemma twentieths_texts:
  "\<forall>k \<in> set [0..<21]. show_twentieths k \<in> set [''0'', ''0.05'', ''0.1'', ''0.15'', ''0.2'', ''0.25'',
     ''0.3'', ''0.35'', ''0.4'', ''0.45'', ''0.5'', ''0.55'', ''0.6'', ''0.65'', ''0.7'', ''0.75'',
     ''0.8'', ''0.85'', ''0.9'', ''0.95'', ''1'']"
  by code_simp

lemma unat_byte: "unat (w :: byte) \<le> 255"
  using unsigned_less [of w, where ?'a = nat] by simp

lemma pixel_key_bytes:
  assumes "length data = 4 * W * H" "y < H" "x < W"
  shows "pixel_key W data y x =
     colorKey (Some (unat (data ! ((y * W + x) * 4)))) (Some (unat (data ! ((y * W + x) * 4 + 1))))
       (Some (unat (data ! ((y * W + x) * 4 + 2)))) (Some (unat (data ! ((y * W + x) * 4 + 3))))"
proof -
  from assms(2,3) have "y * W + x < W * H" by (rule pixel_index_less)
  with assms(1) have "(y * W + x) * 4 + 3 < length data" by simp
  then show ?thesis
    by (simp add: pixel_key_def data_at_def)
qed

lemma colorKey_bytes:
  "colorKey (Some r) (Some g) (Some b) (Some a) =
     ''rgba('' @ show_nat (if even r then r else r + 1) @ '','' @
       show_nat (if even g then g else g + 1) @ '','' @
       show_nat (if even b then b else b + 1) @ '','' @
       show_twentieths ((40 * a + 255) div 510) @ '')''"
  unfolding colorKey_def channel_text_def alpha_text_def option.case quantize_channel quantize_alpha
  by (rule refl)

lemma sample_keys:
  assumes "0 < s" "sample s W H data = Some cm" "key \<in> set (map fst cm)"
  shows "\<exists>y x. y < H \<and> x < W \<and> kept W data y x \<and> key = pixel_key W data y x"
proof -
  from assms(1,2) have "cm = foldl (\<lambda>cm (key, rect). colorMap_push key rect cm) [] (samples s W H data)"
    by (simp add: sample_samples)
  with assms(3) have "key \<in> set (map fst (samples s W H data))"
    by (simp only: keys_foldl) simp
  then obtain c where "(key, c) \<in> set (samples s W H data)"
    by auto
  with assms(1) show ?thesis
    by (auto simp: samples_member grid_set)
qed

text \<open>
  Claim C8: for a canvas of \<open>W\<close> by \<open>H\<close> pixels (a buffer of \<open>4 * W * H\<close>
  bytes) the conversion returns the XML declaration, then the root element
  with width \<open>W\<close>, height \<open>H\<close>, the SVG namespace and the viewBox
  \<^verbatim>\<open>0 0 W H\<close>, whose children are the emitted rectangles as \<^verbatim>\<open>rect\<close> elements
  with the attributes x, y, width, height and fill; every fill is
  \<^verbatim>\<open>rgba(R,G,B,A)\<close> with \<open>A\<close> one of \<^verbatim>\<open>0\<close>, \<^verbatim>\<open>0.05\<close>, ..., \<^verbatim>\<open>0.95\<close>, \<^verbatim>\<open>1\<close>.
  A 10 by 10 canvas declares width 10 and height 10 whatever its rectangles.
\<close>

theorem C8_document:
  assumes "length data = 4 * W * H"
  shows \<open>\<exists>cm. sample (sampleRate W H) W H data = Some cm \<and>
     convert W H data =
       Some (''<?xml version="1.0" encoding="UTF-8" standalone="no"?>'' @ [CHR 0x0A] @
         ''<svg width="'' @ show_nat W @ ''" height="'' @ show_nat H @
         ''" xmlns="http://www.w3.org/2000/svg" viewBox="0 0 '' @ show_nat W @ '' '' @ show_nat H @
         ''">'' @ [CHR 0x0A] @ ''  '' @
         concat (map (\<lambda>(color, rect).
           ''<rect x="'' @ show_nat (rect_x rect) @ ''" y="'' @ show_nat (rect_y rect) @
           ''" width="'' @ show_nat (rect_width rect) @ ''" height="'' @ show_nat (rect_height rect) @
           ''" fill="'' @ color @ ''" />'') (emitted cm)) @
         [CHR 0x0A] @ ''</svg>'') \<and>
     (\<forall>(color, rect) \<in> set (emitted cm).
        \<exists>r g b A. r \<le> 256 \<and> g \<le> 256 \<and> b \<le> 256 \<and>
          A \<in> set [''0'', ''0.05'', ''0.1'', ''0.15'', ''0.2'', ''0.25'', ''0.3'', ''0.35'', ''0.4'',
            ''0.45'', ''0.5'', ''0.55'', ''0.6'', ''0.65'', ''0.7'', ''0.75'', ''0.8'', ''0.85'', ''0.9'',
            ''0.95'', ''1''] \<and>
          color = ''rgba('' @ show_nat r @ '','' @ show_nat g @ '','' @ show_nat b @ '','' @ A @ '')'') \<and>
     (W = 10 \<and> H = 10 \<longrightarrow>
        convert W H data =
          Some (''<?xml version="1.0" encoding="UTF-8" standalone="no"?>'' @ [CHR 0x0A] @
            ''<svg width="10" height="10" xmlns="http://www.w3.org/2000/svg" viewBox="0 0 10 10">'' @
            [CHR 0x0A] @ ''  '' @ svgPaths cm @ [CHR 0x0A] @ ''</svg>''))\<close>
proof -
  obtain cm where cm: "sample (sampleRate W H) W H data = Some cm"
    by (simp add: sample_samples sampleRate_pos)
  have doc: "convert W H data = Some (svg_open W H @ svgPaths cm @ svg_close)"
    by (simp add: convert_def cm svg_def)
  have colors: "\<exists>r g b A. r \<le> 256 \<and> g \<le> 256 \<and> b \<le> 256 \<and>
      A \<in> set [''0'', ''0.05'', ''0.1'', ''0.15'', ''0.2'', ''0.25'', ''0.3'', ''0.35'', ''0.4'',
        ''0.45'', ''0.5'', ''0.55'', ''0.6'', ''0.65'', ''0.7'', ''0.75'', ''0.8'', ''0.85'', ''0.9'',
        ''0.95'', ''1''] \<and>
      color = ''rgba('' @ show_nat r @ '','' @ show_nat g @ '','' @ show_nat b @ '','' @ A @ '')''"
    if "(color, rect) \<in> set (emitted cm)" for color rect
  proof -
    from that have "color \<in> set (map fst cm)"
      by (rule emitted_keys)
    with cm obtain y x where yx: "y < H" "x < W" "color = pixel_key W data y x"
      using sample_keys [OF sampleRate_pos] by blast
    define i where "i = (y * W + x) * 4"
    define r where "r = unat (data ! i)"
    define g where "g = unat (data ! (i + 1))"
    define b where "b = unat (data ! (i + 2))"
    define a where "a = unat (data ! (i + 3))"
    have bounds: "r \<le> 255" "g \<le> 255" "b \<le> 255" "a \<le> 255"
      by (simp_all add: r_def g_def b_def a_def unat_byte)
    from bounds have k: "(40 * a + 255) div 510 < 21"
      by simp
    have A: "show_twentieths ((40 * a + 255) div 510) \<in> set [''0'', ''0.05'', ''0.1'', ''0.15'',
        ''0.2'', ''0.25'', ''0.3'', ''0.35'', ''0.4'', ''0.45'', ''0.5'', ''0.55'', ''0.6'', ''0.65'',
        ''0.7'', ''0.75'', ''0.8'', ''0.85'', ''0.9'', ''0.95'', ''1'']"
      using twentieths_texts k by (simp only: set_upt atLeastLessThan_iff le0 simp_thms)
    from assms yx have "color = colorKey (Some r) (Some g) (Some b) (Some a)"
      by (simp only: pixel_key_bytes r_def g_def b_def a_def i_def)
    then have "color = ''rgba('' @ show_nat (if even r then r else r + 1) @ '','' @
        show_nat (if even g then g else g + 1) @ '','' @
        show_nat (if even b then b else b + 1) @ '','' @
        show_twentieths ((40 * a + 255) div 510) @ '')''"
      by (simp only: colorKey_bytes)
    moreover from bounds have "(if even r then r else r + 1) \<le> 256"
      "(if even g then g else g + 1) \<le> 256" "(if even b then b else b + 1) \<le> 256"
      by simp_all
    ultimately show ?thesis
      using A by blast
  qed
  have open10: \<open>svg_open 10 10 =
      ''<?xml version="1.0" encoding="UTF-8" standalone="no"?>'' @ [CHR 0x0A] @
      ''<svg width="10" height="10" xmlns="http://www.w3.org/2000/svg" viewBox="0 0 10 10">'' @
      [CHR 0x0A] @ ''  ''\<close>
    by code_simp
  have \<open>convert W H data =
          Some (''<?xml version="1.0" encoding="UTF-8" standalone="no"?>'' @ [CHR 0x0A] @
            ''<svg width="10" height="10" xmlns="http://www.w3.org/2000/svg" viewBox="0 0 10 10">'' @
            [CHR 0x0A] @ ''  '' @ svgPaths cm @ [CHR 0x0A] @ ''</svg>'')\<close>
    if "W = 10 \<and> H = 10"
    using that doc open10 by (simp add: svg_close_def)
  moreover from doc have \<open>convert W H data =
       Some (''<?xml version="1.0" encoding="UTF-8" standalone="no"?>'' @ [CHR 0x0A] @
         ''<svg width="'' @ show_nat W @ ''" height="'' @ show_nat H @
         ''" xmlns="http://www.w3.org/2000/svg" viewBox="0 0 '' @ show_nat W @ '' '' @ show_nat H @
         ''">'' @ [CHR 0x0A] @ ''  '' @
         concat (map (\<lambda>(color, rect).
           ''<rect x="'' @ show_nat (rect_x rect) @ ''" y="'' @ show_nat (rect_y rect) @
           ''" width="'' @ show_nat (rect_width rect) @ ''" height="'' @ show_nat (rect_height rect) @
           ''" fill="'' @ color @ ''" />'') (emitted cm)) @
         [CHR 0x0A] @ ''</svg>'')\<close>
    by (simp add: svg_open_def svg_close_def svgPaths_emitted rect_element_def)
  ultimately show ?thesis
    using cm colors by blast
qed

text \<open>Claim C8 at the 10 by 10 canvas of white opaque pixels.\<close>

theorem C8_document_witness:
  \<open>length (replicate 400 (255 :: byte)) = 4 * 10 * 10 \<and>
   (\<exists>cm. sample (sampleRate 10 10) 10 10 (replicate 400 255) = Some cm \<and>
      convert 10 10 (replicate 400 255) =
        Some (''<?xml version="1.0" encoding="UTF-8" standalone="no"?>'' @ [CHR 0x0A] @
          ''<svg width="10" height="10" xmlns="http://www.w3.org/2000/svg" viewBox="0 0 10 10">'' @
          [CHR 0x0A] @ ''  '' @ svgPaths cm @ [CHR 0x0A] @ ''</svg>''))\<close>
proof -
  have len: "length (replicate 400 (255 :: byte)) = 4 * 10 * 10"
    by simp
  from C8_document [OF len] show ?thesis
    using len by blast
qed


end
